theory Spec2Isabelle
  imports Complex_Main
begin

section \<open>Values, rows and the store\<close>

text \<open>
  The repository is a set of Python generators over a MySQL table \<open>user_data\<close>
  with the columns \<open>user_id\<close>, \<open>name\<close>, \<open>email\<close> and \<open>age\<close>.
  A Python value that may sit in a column is a \<open>pyval\<close>. A float is kept exactly:
  a finite double is a sign, a mantissa and a binary exponent, standing for
  \<open>m * 2 ^ e\<close>. A \<open>Decimal\<close> (what the connector delivers for a DECIMAL column, which
  holds neither NaN nor an infinity) is a signed coefficient and a decimal exponent.
\<close>

datatype pyfloat = Finite bool nat int | Infinite bool | NaN

datatype pyval = PNone | PInt int | PFloat pyfloat | PStr string | PDecimal int int

text \<open>
  A row is the dictionary the cursor builds (\<open>dictionary=True\<close>); its keys are fixed by
  the query, so it is a record of the four columns.
\<close>

record user =
  user_id :: pyval
  name :: pyval
  email :: pyval
  age :: pyval

datatype error = StoreError | ValueError | TypeError | OverflowError | AttributeError | ZeroDivisionError

datatype query = SelectUsers | SelectAges | SelectPage int int

datatype line = RecordLine user | BlankLine | TextLine string | ErrorLine string

text \<open>
  Everything a producer does to the outside world is appended to a log: connections and
  cursors opened and closed, queries run, lines printed.
\<close>

datatype event =
    Connected | ConnectRefused | CursorOpened
  | Executed query | ExecuteFailed query
  | CursorClosed | ConnClosed
  | Printed line

text \<open>
  The store is the test double of the database: whether it refuses connections, whether
  its queries fail, and the rows of the table in the order every query returns them.
  Opening a cursor and closing a cursor or a connection always succeed.
\<close>

record store =
  connect_refused :: bool
  query_fails :: bool
  table :: "user list"

definition healthy :: "store \<Rightarrow> bool" where
  "healthy st = (\<not> connect_refused st \<and> \<not> query_fails st)"

definition acquired :: "event list \<Rightarrow> nat" where
  "acquired elog = length (filter (\<lambda>e. e = Connected \<or> e = CursorOpened) elog)"

definition released :: "event list \<Rightarrow> nat" where
  "released elog = length (filter (\<lambda>e. e = ConnClosed \<or> e = CursorClosed) elog)"

definition queries :: "event list \<Rightarrow> query list" where
  "queries elog = concat (map (\<lambda>e. case e of Executed q \<Rightarrow> [q] | ExecuteFailed q \<Rightarrow> [q] | _ \<Rightarrow> []) elog)"

text \<open>
  \<open>seed.connect_to_prodev\<close>: a connection, or \<open>None\<close> after printing the error.
\<close>

definition connect_to_prodev :: "store \<Rightarrow> event list \<Rightarrow> unit option \<times> event list" where
  "connect_to_prodev st elog =
     (if connect_refused st
      then (None, elog @ [ConnectRefused, Printed (ErrorLine ''[connect_to_prodev] Error connecting to DB `ALX_prodev`'')])
      else (Some (), elog @ [Connected]))"

text \<open>
  \<open>cursor.execute\<close>: the rows the cursor will deliver, or the store's error. A
  negative LIMIT or OFFSET is an SQL error.
\<close>

definition execute :: "store \<Rightarrow> query \<Rightarrow> event list \<Rightarrow> (error + user list) \<times> event list" where
  "execute st q elog =
     (if query_fails st then (Inl StoreError, elog @ [ExecuteFailed q])
      else case q of
        SelectPage page_limit off \<Rightarrow>
          (if page_limit < 0 \<or> off < 0 then (Inl StoreError, elog @ [ExecuteFailed q])
           else (Inr (take (nat page_limit) (drop (nat off) (table st))), elog @ [Executed q]))
      | _ \<Rightarrow> (Inr (table st), elog @ [Executed q]))"

section \<open>Python's numeric coercions\<close>

text \<open>
  Strings are ASCII text. \<open>int\<close> and \<open>float\<close> strip white space, read an optional
  sign and then digits, where single underscores may stand between digits.
\<close>

definition is_space :: "char \<Rightarrow> bool" where
  "is_space c = (c \<in> set [CHR 0x09, CHR 0x0A, CHR 0x0B, CHR 0x0C, CHR 0x0D,
                             CHR 0x1C, CHR 0x1D, CHR 0x1E, CHR 0x1F, CHR 0x20])"

definition strip :: "string \<Rightarrow> string" where
  "strip s = rev (dropWhile is_space (rev (dropWhile is_space s)))"

definition is_digit :: "char \<Rightarrow> bool" where
  "is_digit c = (c \<in> set ''0123456789'')"

definition digit_val :: "char \<Rightarrow> nat" where
  "digit_val c = length (takeWhile (\<lambda>d. d \<noteq> c) ''0123456789'')"


text \<open>
  A run of digits with underscores between them: the number read, how many digits it
  had, and the rest of the string. The two accumulators are the number and the count
  so far.
\<close>

fun digits_acc :: "nat \<Rightarrow> nat \<Rightarrow> string \<Rightarrow> nat \<times> nat \<times> string" where
  "digits_acc v n [] = (v, n, [])"
| "digits_acc v n [c] =
     (if is_digit c then (v * 10 + digit_val c, Suc n, []) else (v, n, [c]))"
| "digits_acc v n (c # d # cs) =
     (if is_digit c then digits_acc (v * 10 + digit_val c) (Suc n) (d # cs)
      else if c = CHR ''_'' \<and> 0 < n \<and> is_digit d
        then digits_acc (v * 10 + digit_val d) (Suc n) cs
      else (v, n, c # d # cs))"

definition read_sign :: "string \<Rightarrow> bool \<times> string" where
  "read_sign s =
     (case s of
        c # cs \<Rightarrow> (if c = CHR ''-'' then (True, cs) else if c = CHR ''+'' then (False, cs) else (False, s))
      | [] \<Rightarrow> (False, s))"

text \<open>\<open>int(s)\<close> for a string, base ten.\<close>

definition int_of_string :: "string \<Rightarrow> error + int" where
  "int_of_string s =
     (case read_sign (strip s) of (neg, body) \<Rightarrow>
        (case digits_acc 0 0 body of (v, n, rest) \<Rightarrow>
           (if 0 < n \<and> rest = [] then Inr (if neg then - int v else int v)
            else Inl ValueError)))"









text \<open>\<open>int(x)\<close> of a float truncates towards zero.\<close>

definition int_of_float :: "pyfloat \<Rightarrow> error + int" where
  "int_of_float f =
     (case f of
        Finite neg m e \<Rightarrow>
          (let v = (if 0 \<le> e then int m * 2 ^ nat e else int m div 2 ^ nat (- e))
           in Inr (if neg then - v else v))
      | Infinite neg \<Rightarrow> Inl OverflowError
      | NaN \<Rightarrow> Inl ValueError)"

definition py_int :: "pyval \<Rightarrow> error + int" where
  "py_int v =
     (case v of
        PNone \<Rightarrow> Inl TypeError
      | PInt n \<Rightarrow> Inr n
      | PFloat f \<Rightarrow> int_of_float f
      | PStr s \<Rightarrow> int_of_string s
      | PDecimal c e \<Rightarrow>
          Inr (if 0 \<le> e then c * 10 ^ nat e
               else if c < 0 then - ((- c) div 10 ^ nat (- e)) else c div 10 ^ nat (- e)))"







section \<open>Generators\<close>

text \<open>
  Resuming a generator gives a value, the end of the iteration, or an exception.
\<close>

datatype 'a resume = Yield 'a | StopIteration | Raise error

subsection \<open>0-stream_users.py\<close>

text \<open>
  \<open>_connect_to_prodev\<close> of this module lets the connector's error through.
\<close>

definition stream_users_connect :: "store \<Rightarrow> event list \<Rightarrow> (error + unit) \<times> event list" where
  "stream_users_connect st elog =
     (if connect_refused st then (Inl StoreError, elog @ [ConnectRefused])
      else (Inr (), elog @ [Connected]))"

text \<open>
  The \<open>finally\<close> block closes the cursor and the connection that were set.
\<close>

definition su_finally :: "bool \<Rightarrow> bool \<Rightarrow> event list \<Rightarrow> event list" where
  "su_finally cursor conn elog =
     elog @ (if cursor then [CursorClosed] else []) @ (if conn then [ConnClosed] else [])"

text \<open>
  \<open>row["age"] = int(row["age"])\<close> inside \<open>try\<close>; any exception leaves the row as it is.
\<close>

definition normalize_age :: "user \<Rightarrow> user" where
  "normalize_age row = (case py_int (age row) of Inr n \<Rightarrow> row\<lparr>age := PInt n\<rparr> | Inl e \<Rightarrow> row)"

text \<open>
  The generator object: not started; suspended at \<open>yield row\<close> with the rows the
  cursor still holds; finished.
\<close>

datatype su_gen = SU_Created | SU_Suspended "user list" | SU_Closed

definition stream_users :: su_gen where
  "stream_users = SU_Created"

fun su_loop :: "user list \<Rightarrow> event list \<Rightarrow> user resume \<times> su_gen \<times> event list" where
  "su_loop [] elog = (StopIteration, SU_Closed, su_finally True True elog)"
| "su_loop (row # rows) elog = (Yield (normalize_age row), SU_Suspended rows, elog)"

fun su_next :: "store \<Rightarrow> su_gen \<Rightarrow> event list \<Rightarrow> user resume \<times> su_gen \<times> event list" where
  "su_next st SU_Created elog =
     (case stream_users_connect st elog of
        (Inl e, log1) \<Rightarrow> (Raise e, SU_Closed, su_finally False False log1)
      | (Inr conn, log1) \<Rightarrow>
          (case execute st SelectUsers (log1 @ [CursorOpened]) of
             (Inl e, log2) \<Rightarrow> (Raise e, SU_Closed, su_finally True True log2)
           | (Inr rows, log2) \<Rightarrow> su_loop rows log2))"
| "su_next st (SU_Suspended rows) elog = su_loop rows elog"
| "su_next st SU_Closed elog = (StopIteration, SU_Closed, elog)"

text \<open>
  Closing the generator (what the interpreter does to a generator that is dropped before
  its end) raises \<open>GeneratorExit\<close> at the \<open>yield\<close>: \<open>except Error\<close> does not
  catch it, \<open>finally\<close> runs.
\<close>

fun su_close :: "su_gen \<Rightarrow> event list \<Rightarrow> su_gen \<times> event list" where
  "su_close SU_Created elog = (SU_Closed, elog)"
| "su_close (SU_Suspended rows) elog = (SU_Closed, su_finally True True elog)"
| "su_close SU_Closed elog = (SU_Closed, elog)"

fun su_measure :: "store \<Rightarrow> su_gen \<Rightarrow> nat" where
  "su_measure st SU_Created = length (table st) + 1"
| "su_measure st (SU_Suspended rows) = length rows + 1"
| "su_measure st SU_Closed = 0"

lemma su_next_decreases:
  assumes "su_next st g elog = (Yield u, g1, log1)"
  shows "su_measure st g1 < su_measure st g"
proof (cases g)
  case SU_Created
  with assms show ?thesis
    by (cases "table st")
       (auto simp: stream_users_connect_def execute_def split: if_splits)
next
  case (SU_Suspended rows)
  with assms show ?thesis by (cases rows) auto
next
  case SU_Closed
  with assms show ?thesis by simp
qed

text \<open>
  The consumer \<open>list(stream_users())\<close>.
\<close>

function collect_users :: "store \<Rightarrow> su_gen \<Rightarrow> event list \<Rightarrow> user list \<times> error option \<times> event list" where
  "collect_users st g elog =
     (case su_next st g elog of
        (Yield u, g1, log1) \<Rightarrow>
          (case collect_users st g1 log1 of (us, r, log2) \<Rightarrow> (u # us, r, log2))
      | (StopIteration, g1, log1) \<Rightarrow> ([], None, log1)
      | (Raise e, g1, log1) \<Rightarrow> ([], Some e, log1))"
  by pat_completeness auto
termination
  by (relation "measure (\<lambda>(st, g, elog). su_measure st g)") (auto dest: su_next_decreases [OF sym])

declare collect_users.simps [simp del]

subsection \<open>1-batch_processing.py\<close>

text \<open>
  The generator object of \<open>stream_users_in_batches\<close>: not started, with its argument;
  suspended at the \<open>yield\<close> inside the loop, holding the upstream generator; suspended at
  the \<open>yield\<close> after the loop; finished. Calling a generator function runs none of its
  body: the call gives the generator object.
\<close>

datatype sb_gen = SB_Created int | SB_Suspended int su_gen | SB_Last | SB_Closed

definition stream_users_in_batches :: "int \<Rightarrow> error + sb_gen" where
  "stream_users_in_batches batch_size = Inr (SB_Created batch_size)"

function sb_loop :: "store \<Rightarrow> int \<Rightarrow> user list \<Rightarrow> su_gen \<Rightarrow> event list
    \<Rightarrow> user list resume \<times> sb_gen \<times> event list" where
  "sb_loop st batch_size batch su elog =
     (case su_next st su elog of
        (Yield u, su1, log1) \<Rightarrow>
          (if batch_size \<le> int (length (batch @ [u]))
           then (Yield (batch @ [u]), SB_Suspended batch_size su1, log1)
           else sb_loop st batch_size (batch @ [u]) su1 log1)
      | (StopIteration, su1, log1) \<Rightarrow>
          (if batch \<noteq> [] then (Yield batch, SB_Last, log1) else (StopIteration, SB_Closed, log1))
      | (Raise e, su1, log1) \<Rightarrow> (Raise e, SB_Closed, log1))"
  by pat_completeness auto
termination
  by (relation "measure (\<lambda>(st, bs, batch, su, elog). su_measure st su)")
     (auto dest: su_next_decreases [OF sym])

declare sb_loop.simps [simp del]

fun sb_next :: "store \<Rightarrow> sb_gen \<Rightarrow> event list \<Rightarrow> user list resume \<times> sb_gen \<times> event list" where
  "sb_next st (SB_Created batch_size) elog =
     (if batch_size \<le> 0 then (Raise ValueError, SB_Closed, elog)
      else sb_loop st batch_size [] stream_users elog)"
| "sb_next st (SB_Suspended batch_size su) elog = sb_loop st batch_size [] su elog"
| "sb_next st SB_Last elog = (StopIteration, SB_Closed, elog)"
| "sb_next st SB_Closed elog = (StopIteration, SB_Closed, elog)"

text \<open>
  Closing the generator at the \<open>yield\<close> inside the loop leaves the loop by
  \<open>GeneratorExit\<close>; the upstream generator is dropped with the frame and closed in turn.
\<close>

fun sb_close :: "sb_gen \<Rightarrow> event list \<Rightarrow> sb_gen \<times> event list" where
  "sb_close (SB_Suspended batch_size su) elog = (SB_Closed, snd (su_close su elog))"
| "sb_close g elog = (SB_Closed, elog)"

fun sb_measure :: "store \<Rightarrow> sb_gen \<Rightarrow> nat" where
  "sb_measure st (SB_Created batch_size) = su_measure st stream_users + 3"
| "sb_measure st (SB_Suspended batch_size su) = su_measure st su + 2"
| "sb_measure st SB_Last = 1"
| "sb_measure st SB_Closed = 0"

lemma sb_loop_decreases:
  "sb_loop st bs batch su elog = (Yield b, g1, log1) \<Longrightarrow> sb_measure st g1 \<le> su_measure st su + 1"
proof (induction st bs batch su elog rule: sb_loop.induct)
  case (1 st bs batch su elog)
  obtain r su1 l1 where nx: "su_next st su elog = (r, su1, l1)"
    by (cases "su_next st su elog") auto
  show ?case
  proof (cases r)
    case (Yield u)
    have dec: "su_measure st su1 < su_measure st su"
      using su_next_decreases nx Yield by blast
    show ?thesis
    proof (cases "bs \<le> int (length (batch @ [u]))")
      case True
      with 1(2) nx Yield dec show ?thesis
        by (subst (asm) sb_loop.simps) auto
    next
      case False
      with 1(2) nx Yield have "sb_loop st bs (batch @ [u]) su1 l1 = (Yield b, g1, log1)"
        by (subst (asm) sb_loop.simps) auto
      with 1(1) [OF nx [symmetric] _ _ False] Yield have "sb_measure st g1 \<le> su_measure st su1 + 1"
        by simp
      with dec show ?thesis by simp
    qed
  next
    case StopIteration
    then show ?thesis
      using 1(2) nx
      by (subst (asm) sb_loop.simps) (auto split: if_splits)
  next
    case (Raise e)
    with 1(2) nx show ?thesis
      by (subst (asm) sb_loop.simps) auto
  qed
qed

lemma sb_next_decreases:
  assumes "sb_next st g elog = (Yield b, g1, log1)"
  shows "sb_measure st g1 < sb_measure st g"
proof (cases g)
  case (SB_Created bs)
  with assms sb_loop_decreases [of st bs "[]" stream_users elog b g1 log1] show ?thesis
    by (auto split: if_splits)
next
  case (SB_Suspended bs su)
  with assms sb_loop_decreases [of st bs "[]" su elog b g1 log1] show ?thesis
    by auto
next
  case SB_Last
  with assms show ?thesis by simp
next
  case SB_Closed
  with assms show ?thesis by simp
qed

text \<open>
  The consumer \<open>list(stream_users_in_batches(batch_size))\<close>, from the generator object.
\<close>

function collect_batches :: "store \<Rightarrow> sb_gen \<Rightarrow> event list
    \<Rightarrow> user list list \<times> error option \<times> event list" where
  "collect_batches st g elog =
     (case sb_next st g elog of
        (Yield batch, g1, log1) \<Rightarrow>
          (case collect_batches st g1 log1 of (bs, r, log2) \<Rightarrow> (batch # bs, r, log2))
      | (StopIteration, g1, log1) \<Rightarrow> ([], None, log1)
      | (Raise e, g1, log1) \<Rightarrow> ([], Some e, log1))"
  by pat_completeness auto
termination
  by (relation "measure (\<lambda>(st, g, elog). sb_measure st g)") (auto dest: sb_next_decreases [OF sym])

declare collect_batches.simps [simp del]







definition printed :: "event list \<Rightarrow> line list" where
  "printed elog = concat (map (\<lambda>e. case e of Printed l \<Rightarrow> [l] | _ \<Rightarrow> []) elog)"

subsection \<open>2-lazy_paginate.py\<close>

definition paginate_users :: "store \<Rightarrow> int \<Rightarrow> int \<Rightarrow> event list \<Rightarrow> (error + user list) \<times> event list" where
  "paginate_users st page_size offset elog =
     (case connect_to_prodev st elog of
        (None, log1) \<Rightarrow> (Inl AttributeError, log1)
      | (Some connection, log1) \<Rightarrow>
          (case execute st (SelectPage page_size offset) (log1 @ [CursorOpened]) of
             (Inl e, log2) \<Rightarrow> (Inl e, log2)
           | (Inr rows, log2) \<Rightarrow> (Inr rows, log2 @ [CursorClosed, ConnClosed])))"

text \<open>
  The generator object of \<open>lazy_pagination\<close>: not started, suspended at its
  \<open>yield\<close> with the offset of the page it gave, or finished.
\<close>

datatype lp_gen = LP_Created int | LP_Suspended int int | LP_Closed

definition lazy_pagination :: "int \<Rightarrow> lp_gen" where
  "lazy_pagination page_size = LP_Created page_size"

definition lp_loop :: "store \<Rightarrow> int \<Rightarrow> int \<Rightarrow> event list \<Rightarrow> user list resume \<times> lp_gen \<times> event list" where
  "lp_loop st page_size offset elog =
     (case paginate_users st page_size offset elog of
        (Inl e, log1) \<Rightarrow> (Raise e, LP_Closed, log1)
      | (Inr page, log1) \<Rightarrow>
          (if page = [] then (StopIteration, LP_Closed, log1)
           else (Yield page, LP_Suspended page_size offset, log1)))"

fun lp_next :: "store \<Rightarrow> lp_gen \<Rightarrow> event list \<Rightarrow> user list resume \<times> lp_gen \<times> event list" where
  "lp_next st (LP_Created page_size) elog = lp_loop st page_size 0 elog"
| "lp_next st (LP_Suspended page_size offset) elog = lp_loop st page_size (offset + page_size) elog"
| "lp_next st LP_Closed elog = (StopIteration, LP_Closed, elog)"

fun lp_close :: "lp_gen \<Rightarrow> event list \<Rightarrow> lp_gen \<times> event list" where
  "lp_close g elog = (LP_Closed, elog)"

fun lp_measure :: "store \<Rightarrow> lp_gen \<Rightarrow> nat" where
  "lp_measure st (LP_Created page_size) = length (table st) + 2"
| "lp_measure st (LP_Suspended page_size offset) = nat (int (length (table st)) + 1 - offset)"
| "lp_measure st LP_Closed = 0"

lemma lp_loop_Yield:
  assumes "lp_loop st ps off elog = (Yield p, g, log1)"
  shows "g = LP_Suspended ps off \<and> 0 < ps \<and> 0 \<le> off \<and> off < int (length (table st))"
  using assms
  by (auto simp: lp_loop_def paginate_users_def connect_to_prodev_def execute_def
      split: if_splits prod.splits sum.splits option.splits)

lemma lp_next_decreases:
  assumes "lp_next st g elog = (Yield p, g1, log1)"
  shows "lp_measure st g1 < lp_measure st g"
proof (cases g)
  case (LP_Created ps)
  with assms lp_loop_Yield [of st ps 0 elog p g1 log1] show ?thesis by auto
next
  case (LP_Suspended ps off)
  with assms lp_loop_Yield [of st ps "off + ps" elog p g1 log1] show ?thesis by auto
next
  case LP_Closed
  with assms show ?thesis by simp
qed

text \<open>
  The consumer \<open>list(lazy_pagination(page_size))\<close>: the pages given, the exception
  that ended the iteration if one did, and the log.
\<close>

function collect_pages :: "store \<Rightarrow> lp_gen \<Rightarrow> event list \<Rightarrow> user list list \<times> error option \<times> event list" where
  "collect_pages st g elog =
     (case lp_next st g elog of
        (Yield page, g1, log1) \<Rightarrow>
          (case collect_pages st g1 log1 of (pages, r, log2) \<Rightarrow> (page # pages, r, log2))
      | (StopIteration, g1, log1) \<Rightarrow> ([], None, log1)
      | (Raise e, g1, log1) \<Rightarrow> ([], Some e, log1))"
  by pat_completeness auto
termination
  by (relation "measure (\<lambda>(st, g, elog). lp_measure st g)") (auto dest: lp_next_decreases [OF sym])

declare collect_pages.simps [simp del]

subsection \<open>4-stream_ages.py\<close>

text \<open>
  The generator object of \<open>stream_user_ages\<close>: not started; suspended at
  \<open>yield int(age)\<close> with the rows the cursor still holds; finished. The function has
  no \<open>try\<close>: its two \<open>close\<close> calls stand after the loop.
\<close>

datatype sa_gen = SA_Created | SA_Suspended "user list" | SA_Closed

definition stream_user_ages :: sa_gen where
  "stream_user_ages = SA_Created"

fun sa_loop :: "user list \<Rightarrow> event list \<Rightarrow> int resume \<times> sa_gen \<times> event list" where
  "sa_loop [] elog = (StopIteration, SA_Closed, elog @ [CursorClosed, ConnClosed])"
| "sa_loop (row # rows) elog =
     (case py_int (age row) of
        Inl e \<Rightarrow> (Raise e, SA_Closed, elog)
      | Inr n \<Rightarrow> (Yield n, SA_Suspended rows, elog))"

fun sa_next :: "store \<Rightarrow> sa_gen \<Rightarrow> event list \<Rightarrow> int resume \<times> sa_gen \<times> event list" where
  "sa_next st SA_Created elog =
     (case connect_to_prodev st elog of
        (None, log1) \<Rightarrow> (Raise AttributeError, SA_Closed, log1)
      | (Some connection, log1) \<Rightarrow>
          (case execute st SelectAges (log1 @ [CursorOpened]) of
             (Inl e, log2) \<Rightarrow> (Raise e, SA_Closed, log2)
           | (Inr rows, log2) \<Rightarrow> sa_loop rows log2))"
| "sa_next st (SA_Suspended rows) elog = sa_loop rows elog"
| "sa_next st SA_Closed elog = (StopIteration, SA_Closed, elog)"

text \<open>
  Closing the generator raises \<open>GeneratorExit\<close> at the \<open>yield\<close>; nothing catches
  it and nothing after the loop runs.
\<close>

fun sa_close :: "sa_gen \<Rightarrow> event list \<Rightarrow> sa_gen \<times> event list" where
  "sa_close g elog = (SA_Closed, elog)"






text \<open>
  A consumer that stops early: it asks for at most \<open>n\<close> values and then drops the
  generator. The next and close operations of the generator are its arguments.
\<close>

fun take_then_close :: "nat \<Rightarrow> ('g \<Rightarrow> event list \<Rightarrow> 'a resume \<times> 'g \<times> event list)
    \<Rightarrow> ('g \<Rightarrow> event list \<Rightarrow> 'g \<times> event list) \<Rightarrow> 'g \<Rightarrow> event list
    \<Rightarrow> 'a list \<times> error option \<times> event list" where
  "take_then_close 0 nxt cls g elog = ([], None, snd (cls g elog))"
| "take_then_close (Suc n) nxt cls g elog =
     (case nxt g elog of
        (Yield x, g1, log1) \<Rightarrow>
          (case take_then_close n nxt cls g1 log1 of (xs, r, log2) \<Rightarrow> (x # xs, r, log2))
      | (StopIteration, g1, log1) \<Rightarrow> ([], None, log1)
      | (Raise e, g1, log1) \<Rightarrow> ([], Some e, log1))"

subsection \<open>seed.py\<close>

text \<open>
  \<open>stream_user_data(connection)\<close> works on the caller's connection. It opens a cursor,
  catches the store's error, prints it and ends; \<open>finally\<close> closes the cursor.
\<close>

datatype sd_gen = SD_Created | SD_Suspended "user list" | SD_Closed




fun sd_close :: "sd_gen \<Rightarrow> event list \<Rightarrow> sd_gen \<times> event list" where
  "sd_close SD_Created elog = (SD_Closed, elog)"
| "sd_close (SD_Suspended rows) elog = (SD_Closed, elog @ [CursorClosed])"
| "sd_close SD_Closed elog = (SD_Closed, elog)"

section \<open>Reference functions\<close>





section \<open>Example data\<close>

definition alice :: user where
  "alice = \<lparr>user_id = PStr ''u-1'', name = PStr ''Alice'', email = PStr ''alice@example.com'', age = PDecimal 30 0\<rparr>"

definition bob :: user where
  "bob = \<lparr>user_id = PStr ''u-2'', name = PStr ''Bob'', email = PStr ''bob@example.com'', age = PDecimal 20 0\<rparr>"

definition carol :: user where
  "carol = \<lparr>user_id = PStr ''u-3'', name = PStr ''Carol'', email = PStr ''carol@example.com'', age = PDecimal 26 0\<rparr>"

definition three_users :: store where
  "three_users = \<lparr>connect_refused = False, query_fails = False, table = [alice, bob, carol]\<rparr>"


definition failing :: store where
  "failing = \<lparr>connect_refused = False, query_fails = True, table = [alice, bob, carol]\<rparr>"










section \<open>Pages of a table\<close>

text \<open>
  The slices of a list of a given length, in order; the last may be shorter.
\<close>

function chunks :: "nat \<Rightarrow> 'a list \<Rightarrow> 'a list list" where
  "chunks n xs = (if n = 0 \<or> xs = [] then [] else take n xs # chunks n (drop n xs))"
  by pat_completeness auto
termination
  by (relation "measure (\<lambda>(n, xs). length xs)") auto

declare chunks.simps [simp del]

lemma chunks_Nil [simp]: "chunks n [] = []"
  by (simp add: chunks.simps)

lemma chunks_step: "0 < n \<Longrightarrow> xs \<noteq> [] \<Longrightarrow> chunks n xs = take n xs # chunks n (drop n xs)"
  by (subst chunks.simps) simp

lemma concat_chunks: "0 < n \<Longrightarrow> concat (chunks n xs) = xs"
proof (induction n xs rule: chunks.induct)
  case (1 n xs)
  show ?case
  proof (cases "xs = []")
    case True
    then show ?thesis by simp
  next
    case False
    with 1 show ?thesis by (simp add: chunks_step)
  qed
qed

lemma chunks_nonempty: "ys \<in> set (chunks n xs) \<Longrightarrow> ys \<noteq> []"
proof (induction n xs rule: chunks.induct)
  case (1 n xs)
  show ?case
  proof (cases "n = 0 \<or> xs = []")
    case True
    with 1(2) show ?thesis by (auto simp: chunks.simps)
  next
    case False
    with 1 show ?thesis by (auto simp: chunks_step)
  qed
qed

lemma chunks_nth:
  "k < length (chunks n xs) \<Longrightarrow> chunks n xs ! k = take n (drop (k * n) xs)"
proof (induction n xs arbitrary: k rule: chunks.induct)
  case (1 n xs)
  show ?case
  proof (cases "n = 0 \<or> xs = []")
    case True
    with 1(2) show ?thesis by (auto simp: chunks.simps)
  next
    case False
    show ?thesis
    proof (cases k)
      case 0
      with False show ?thesis by (simp add: chunks_step)
    next
      case (Suc j)
      with False 1 show ?thesis by (simp add: chunks_step add.commute)
    qed
  qed
qed

lemma chunks_end: "0 < n \<Longrightarrow> drop (length (chunks n xs) * n) xs = []"
proof (induction n xs rule: chunks.induct)
  case (1 n xs)
  show ?case
  proof (cases "xs = []")
    case True
    then show ?thesis by simp
  next
    case False
    with 1 show ?thesis by (simp add: chunks_step add.commute)
  qed
qed

lemma chunks_full:
  "Suc k < length (chunks n xs) \<Longrightarrow> length (chunks n xs ! k) = n"
proof -
  assume a: "Suc k < length (chunks n xs)"
  then have k: "k < length (chunks n xs)" by simp
  have "chunks n xs ! Suc k \<noteq> []"
    using a chunks_nonempty nth_mem by blast
  then have "take n (drop (Suc k * n) xs) \<noteq> []"
    using chunks_nth [OF a] by simp
  then have "Suc k * n < length xs" by auto
  then show ?thesis using chunks_nth [OF k] by simp
qed

definition one_fetch :: "int \<Rightarrow> nat \<Rightarrow> event list" where
  "one_fetch ps off = [Connected, CursorOpened, Executed (SelectPage ps (int off)), CursorClosed, ConnClosed]"

lemma lp_loop_healthy:
  assumes "healthy st" "0 < ps"
  shows "lp_loop st ps (int off) elog =
     (let page = take (nat ps) (drop off (table st)) in
      (if page = [] then StopIteration else Yield page,
       if page = [] then LP_Closed else LP_Suspended ps (int off),
       elog @ one_fetch ps off))"
  using assms
  by (simp add: lp_loop_def paginate_users_def connect_to_prodev_def execute_def healthy_def
      one_fetch_def Let_def)


lemma acquired_append [simp]: "acquired (xs @ ys) = acquired xs + acquired ys"
  by (simp add: acquired_def)

lemma released_append [simp]: "released (xs @ ys) = released xs + released ys"
  by (simp add: released_def)

fun fetches :: "int \<Rightarrow> nat \<Rightarrow> nat \<Rightarrow> event list" where
  "fetches ps off 0 = []"
| "fetches ps off (Suc n) = one_fetch ps off @ fetches ps (off + nat ps) n"

lemma released_fetches: "released (fetches ps off m) = acquired (fetches ps off m)"
  by (induction m arbitrary: off) (simp_all add: released_def acquired_def one_fetch_def)

lemma queries_append [simp]: "queries (xs @ ys) = queries xs @ queries ys"
  by (simp add: queries_def)

lemma queries_one_fetch [simp]: "queries (one_fetch ps off) = [SelectPage ps (int off)]"
  by (simp add: queries_def one_fetch_def)

lemma queries_fetches:
  "0 < ps \<Longrightarrow> queries (fetches ps off n) = map (\<lambda>k. SelectPage ps (int off + int k * ps)) [0..<n]"
proof (induction n arbitrary: off)
  case 0
  then show ?case by (simp add: queries_def)
next
  case (Suc n)
  have "map (\<lambda>k. SelectPage ps (int off + int k * ps)) [0..<Suc n] =
        SelectPage ps (int off) # map (\<lambda>k. SelectPage ps (int off + int (Suc k) * ps)) [0..<n]"
    by (simp add: upt_conv_Cons map_Suc_upt [symmetric] del: upt_Suc)
  also have "\<dots> = SelectPage ps (int off) # map (\<lambda>k. SelectPage ps (int (off + nat ps) + int k * ps)) [0..<n]"
    using Suc.prems by (simp add: algebra_simps)
  finally show ?case using Suc by simp
qed

lemma collect_pages_from:
  assumes "healthy st" "0 < ps"
  shows "collect_pages st (LP_Suspended ps (int off - ps)) elog =
     (chunks (nat ps) (drop off (table st)), None,
      elog @ fetches ps off (Suc (length (chunks (nat ps) (drop off (table st))))))"
proof (induction "length (table st) - off" arbitrary: off elog rule: less_induct)
  case less
  let ?page = "take (nat ps) (drop off (table st))"
  show ?case
  proof (cases "?page = []")
    case True
    with assms have "drop off (table st) = []" by auto
    moreover have "lp_next st (LP_Suspended ps (int off - ps)) elog =
        (StopIteration, LP_Closed, elog @ one_fetch ps off)"
      using True assms by (simp add: lp_loop_healthy)
    ultimately show ?thesis
      by (subst collect_pages.simps) simp
  next
    case False
    then have lt: "off < length (table st)" by auto
    have ne: "drop off (table st) \<noteq> []" using False by auto
    have step: "length (table st) - (off + nat ps) < length (table st) - off"
      using lt assms by auto
    have ih: "collect_pages st (LP_Suspended ps (int off)) (elog @ one_fetch ps off) =
        (chunks (nat ps) (drop (off + nat ps) (table st)), None,
         (elog @ one_fetch ps off) @ fetches ps (off + nat ps)
            (Suc (length (chunks (nat ps) (drop (off + nat ps) (table st))))))"
      using less [OF step, of "elog @ one_fetch ps off"] assms by simp
    have ch: "chunks (nat ps) (drop off (table st)) =
        ?page # chunks (nat ps) (drop (off + nat ps) (table st))"
      using chunks_step [OF _ ne, of "nat ps"] assms by (simp add: add.commute)
    have "lp_next st (LP_Suspended ps (int off - ps)) elog =
        (Yield ?page, LP_Suspended ps (int off), elog @ one_fetch ps off)"
      using False assms by (simp add: lp_loop_healthy)
    then show ?thesis
      by (subst collect_pages.simps) (simp add: ih ch)
  qed
qed


section \<open>Draining the row streamer\<close>

lemma collect_users_suspended:
  "collect_users st (SU_Suspended rows) elog = (map normalize_age rows, None, su_finally True True elog)"
  by (induction rows) (simp_all add: collect_users.simps)

lemma collect_users_healthy:
  assumes "healthy st"
  shows "collect_users st stream_users elog =
     (map normalize_age (table st), None,
      elog @ [Connected, CursorOpened, Executed SelectUsers, CursorClosed, ConnClosed])"
proof -
  have "su_next st stream_users elog =
      su_next st (SU_Suspended (table st)) (elog @ [Connected, CursorOpened, Executed SelectUsers])"
    using assms by (simp add: healthy_def stream_users_def stream_users_connect_def execute_def)
  then have "collect_users st stream_users elog =
      collect_users st (SU_Suspended (table st)) (elog @ [Connected, CursorOpened, Executed SelectUsers])"
    by (subst collect_users.simps, subst (2) collect_users.simps) simp
  then show ?thesis by (simp add: collect_users_suspended su_finally_def)
qed

section \<open>Draining the batcher\<close>

lemma sb_loop_suspended:
  assumes "0 < bs"
  shows "length batch < nat bs \<Longrightarrow>
     sb_loop st bs batch (SU_Suspended rows) elog =
     (if nat bs \<le> length batch + length rows
      then (Yield (batch @ map normalize_age (take (nat bs - length batch) rows)),
            SB_Suspended bs (SU_Suspended (drop (nat bs - length batch) rows)), elog)
      else if batch = [] \<and> rows = [] then (StopIteration, SB_Closed, su_finally True True elog)
      else (Yield (batch @ map normalize_age rows), SB_Last, su_finally True True elog))"
proof (induction rows arbitrary: batch)
  case Nil
  then show ?case by (subst sb_loop.simps) simp
next
  case (Cons r rs)
  show ?case
  proof (cases "bs \<le> int (length (batch @ [normalize_age r]))")
    case True
    with Cons.prems have eq: "nat bs - length batch = 1" by simp
    from True Cons.prems show ?thesis
      by (subst sb_loop.simps) (simp add: eq)
  next
    case False
    then have lt: "length (batch @ [normalize_age r]) < nat bs" by simp
    have tk: "take (nat bs - length batch) (r # rs) = r # take (nat bs - length (batch @ [normalize_age r])) rs"
      using lt by (simp add: take_Cons')
    have dr: "drop (nat bs - length batch) (r # rs) = drop (nat bs - length (batch @ [normalize_age r])) rs"
      using lt by (simp add: drop_Cons')
    have "sb_loop st bs batch (SU_Suspended (r # rs)) elog =
          sb_loop st bs (batch @ [normalize_age r]) (SU_Suspended rs) elog"
      using False by (subst sb_loop.simps) simp
    then show ?thesis
      using Cons.IH [OF lt] lt by (simp add: tk dr)
  qed
qed

lemma sb_next_suspended:
  assumes "0 < bs"
  shows "sb_next st (SB_Suspended bs (SU_Suspended rows)) elog =
     (if nat bs \<le> length rows
      then (Yield (map normalize_age (take (nat bs) rows)),
            SB_Suspended bs (SU_Suspended (drop (nat bs) rows)), elog)
      else if rows = [] then (StopIteration, SB_Closed, su_finally True True elog)
      else (Yield (map normalize_age rows), SB_Last, su_finally True True elog))"
  using sb_loop_suspended [OF assms, of "[]" st rows elog] assms by simp

lemma sb_next_created_healthy:
  assumes "healthy st" "0 < bs"
  shows "sb_next st (SB_Created bs) elog =
     sb_next st (SB_Suspended bs (SU_Suspended (table st)))
       (elog @ [Connected, CursorOpened, Executed SelectUsers])"
proof -
  have "su_next st stream_users elog =
      su_next st (SU_Suspended (table st)) (elog @ [Connected, CursorOpened, Executed SelectUsers])"
    using assms by (simp add: healthy_def stream_users_def stream_users_connect_def execute_def)
  then show ?thesis
    using assms by (simp, subst sb_loop.simps, subst (2) sb_loop.simps) simp
qed

lemma collect_batches_suspended:
  assumes "0 < bs"
  shows "collect_batches st (SB_Suspended bs (SU_Suspended rows)) elog =
     (chunks (nat bs) (map normalize_age rows), None, su_finally True True elog)"
proof (induction "length rows" arbitrary: rows rule: less_induct)
  case less
  have pos: "0 < nat bs" using assms by simp
  consider (empty) "rows = []" | (short) "rows \<noteq> []" "length rows < nat bs" | (full) "nat bs \<le> length rows"
    by fastforce
  then show ?case
  proof cases
    case empty
    then show ?thesis
      using pos by (subst collect_batches.simps) (simp add: sb_next_suspended [OF assms] del: sb_next.simps)
  next
    case short
    have "collect_batches st SB_Last (su_finally True True elog) = ([], None, su_finally True True elog)"
      by (subst collect_batches.simps) simp
    moreover have "chunks (nat bs) (map normalize_age rows) = [map normalize_age rows]"
      using short pos by (simp add: chunks_step)
    ultimately show ?thesis
      using short by (subst collect_batches.simps) (simp add: sb_next_suspended [OF assms] del: sb_next.simps)
  next
    case full
    then have ne: "rows \<noteq> []" using pos by auto
    have sh: "length (drop (nat bs) rows) < length rows" using full pos by simp
    have "chunks (nat bs) (map normalize_age rows) =
        map normalize_age (take (nat bs) rows) # chunks (nat bs) (map normalize_age (drop (nat bs) rows))"
      using ne pos by (simp add: chunks_step take_map drop_map)
    then show ?thesis
      using full less [OF sh]
      by (subst collect_batches.simps) (simp add: sb_next_suspended [OF assms] del: sb_next.simps)
  qed
qed


lemma chunks_bounded: "ys \<in> set (chunks n xs) \<Longrightarrow> length ys \<le> n"
proof -
  assume "ys \<in> set (chunks n xs)"
  then obtain k where "k < length (chunks n xs)" "chunks n xs ! k = ys"
    by (auto simp: in_set_conv_nth)
  then show ?thesis using chunks_nth [of k n xs] by auto
qed

lemma su_next_unhealthy:
  assumes "\<not> healthy st"
  shows "\<exists>evs. su_next st stream_users elog = (Raise StoreError, SU_Closed, elog @ evs)"
  using assms
  by (cases "connect_refused st")
     (simp_all add: healthy_def stream_users_def stream_users_connect_def execute_def su_finally_def)


section \<open>The batch filter and printer\<close>

lemma printed_append [simp]: "printed (xs @ ys) = printed xs @ printed ys"
  by (simp add: printed_def)


lemma printed_map_Printed [simp]: "printed (map Printed ls) = ls"
  by (induction ls) (simp_all add: printed_def)

lemma acquired_map_Printed [simp]: "acquired (map Printed ls) = 0"
  by (induction ls) (simp_all add: acquired_def)

lemma released_map_Printed [simp]: "released (map Printed ls) = 0"
  by (induction ls) (simp_all add: released_def)

lemma su_finally_counts [simp]:
  "printed (su_finally True True elog) = printed elog"
  "acquired (su_finally True True elog) = acquired elog"
  "released (su_finally True True elog) = released elog + 2"
  by (simp_all add: su_finally_def printed_def acquired_def released_def)

















section \<open>The running average\<close>

















section \<open>Resources held and released\<close>

text \<open>
  What a suspended generator holds: \<open>stream_users\<close> its connection and its cursor, the
  batcher what its upstream holds. A consumer that asks for \<open>n\<close> values and then drops
  the generator covers every way out: exhaustion and an exception when they come within
  \<open>n\<close> requests, an early stop otherwise. For \<open>stream_users\<close> and
  \<open>stream_users_in_batches\<close> everything acquired is released on each of them, on every
  store; for \<open>lazy_pagination\<close> it is as long as no query fails.
\<close>

fun su_holds :: "su_gen \<Rightarrow> nat" where
  "su_holds SU_Created = 0"
| "su_holds (SU_Suspended rows) = 2"
| "su_holds SU_Closed = 0"

fun sb_holds :: "sb_gen \<Rightarrow> nat" where
  "sb_holds (SB_Suspended batch_size su) = su_holds su"
| "sb_holds g = 0"

lemma su_next_holds:
  assumes "su_next st g elog = (r, g1, elog1)" and "acquired elog = released elog + su_holds g"
  shows "acquired elog1 = released elog1 + su_holds g1"
proof (cases g)
  case SU_Created
  with assms show ?thesis
    by (cases "table st")
       (auto simp: stream_users_connect_def execute_def su_finally_def acquired_def released_def
          split: if_splits)
next
  case (SU_Suspended rows)
  with assms show ?thesis
    by (cases rows) (auto simp: su_finally_def acquired_def released_def)
next
  case SU_Closed
  with assms show ?thesis by auto
qed

lemma su_next_ends:
  assumes "su_next st g elog = (r, g1, elog1)" and "\<forall>u. r \<noteq> Yield u"
  shows "g1 = SU_Closed"
proof (cases g)
  case SU_Created
  with assms show ?thesis
    by (cases "table st") (auto simp: stream_users_connect_def execute_def split: if_splits)
next
  case (SU_Suspended rows)
  with assms show ?thesis by (cases rows) auto
next
  case SU_Closed
  with assms show ?thesis by auto
qed

lemma su_close_releases:
  assumes "acquired elog = released elog + su_holds g"
  shows "acquired (snd (su_close g elog)) = released (snd (su_close g elog))"
  using assms by (cases g) (auto simp: su_finally_def acquired_def released_def)

lemma stream_users_releases_from:
  assumes "acquired elog = released elog + su_holds g"
  shows "case take_then_close n (su_next st) su_close g elog of
           (us, r, elog1) \<Rightarrow> acquired elog1 = released elog1"
  using assms
proof (induction n arbitrary: g elog)
  case 0
  then show ?case using su_close_releases [of elog g] by simp
next
  case (Suc n)
  obtain r g1 l1 where nx: "su_next st g elog = (r, g1, l1)"
    by (cases "su_next st g elog") auto
  have inv: "acquired l1 = released l1 + su_holds g1"
    by (rule su_next_holds [OF nx Suc.prems])
  show ?case
  proof (cases r)
    case (Yield u)
    with nx Suc.IH [OF inv] show ?thesis by (auto split: prod.splits)
  next
    case StopIteration
    with nx su_next_ends [OF nx] inv show ?thesis by auto
  next
    case (Raise e)
    with nx su_next_ends [OF nx] inv show ?thesis by auto
  qed
qed

lemma sb_loop_holds:
  "sb_loop st bs batch su elog = (r, g1, elog1) \<Longrightarrow>
   acquired elog = released elog + su_holds su \<Longrightarrow>
   acquired elog1 = released elog1 + sb_holds g1 \<and> ((\<forall>b. r \<noteq> Yield b) \<longrightarrow> g1 = SB_Closed)"
proof (induction st bs batch su elog rule: sb_loop.induct)
  case (1 st bs batch su elog)
  obtain r0 su1 l1 where nx: "su_next st su elog = (r0, su1, l1)"
    by (cases "su_next st su elog") auto
  have inv: "acquired l1 = released l1 + su_holds su1"
    by (rule su_next_holds [OF nx 1(3)])
  show ?case
  proof (cases r0)
    case (Yield u)
    show ?thesis
    proof (cases "bs \<le> int (length (batch @ [u]))")
      case True
      with 1(2) nx Yield inv show ?thesis
        by (subst (asm) sb_loop.simps) auto
    next
      case False
      with 1(2) nx Yield have "sb_loop st bs (batch @ [u]) su1 l1 = (r, g1, elog1)"
        by (subst (asm) sb_loop.simps) auto
      with 1(1) [OF nx [symmetric] _ _ False] Yield inv show ?thesis by simp
    qed
  next
    case StopIteration
    then have "su1 = SU_Closed" using su_next_ends [OF nx] by simp
    with 1(2) nx StopIteration inv show ?thesis
      by (subst (asm) sb_loop.simps) (auto split: if_splits)
  next
    case (Raise e)
    then have "su1 = SU_Closed" using su_next_ends [OF nx] by simp
    with 1(2) nx Raise inv show ?thesis
      by (subst (asm) sb_loop.simps) auto
  qed
qed

lemma sb_next_holds:
  assumes "sb_next st g elog = (r, g1, elog1)" and "acquired elog = released elog + sb_holds g"
  shows "acquired elog1 = released elog1 + sb_holds g1 \<and> ((\<forall>b. r \<noteq> Yield b) \<longrightarrow> g1 = SB_Closed)"
proof (cases g)
  case (SB_Created bs)
  show ?thesis
  proof (cases "bs \<le> 0")
    case True
    with assms SB_Created show ?thesis by auto
  next
    case False
    with assms SB_Created sb_loop_holds [of st bs "[]" stream_users elog r g1 elog1]
    show ?thesis by (simp add: stream_users_def)
  qed
next
  case (SB_Suspended bs su)
  with assms sb_loop_holds [of st bs "[]" su elog r g1 elog1] show ?thesis by simp
next
  case SB_Last
  with assms show ?thesis by auto
next
  case SB_Closed
  with assms show ?thesis by auto
qed

lemma sb_close_releases:
  assumes "acquired elog = released elog + sb_holds g"
  shows "acquired (snd (sb_close g elog)) = released (snd (sb_close g elog))"
proof (cases g)
  case (SB_Suspended bs su)
  with assms su_close_releases [of elog su] show ?thesis by simp
qed (use assms in auto)

lemma batches_release_from:
  assumes "acquired elog = released elog + sb_holds g"
  shows "case take_then_close n (sb_next st) sb_close g elog of
           (bs, r, elog1) \<Rightarrow> acquired elog1 = released elog1"
  using assms
proof (induction n arbitrary: g elog)
  case 0
  then show ?case using sb_close_releases [of elog g] by simp
next
  case (Suc n)
  obtain r g1 l1 where nx: "sb_next st g elog = (r, g1, l1)"
    by (cases "sb_next st g elog") auto
  note inv = sb_next_holds [OF nx Suc.prems]
  show ?case
  proof (cases r)
    case (Yield u)
    with nx Suc.IH [of l1 g1] inv show ?thesis by (auto split: prod.splits)
  next
    case StopIteration
    with nx inv show ?thesis by auto
  next
    case (Raise e)
    with nx inv show ?thesis by auto
  qed
qed

lemma stream_users_releases:
  "case take_then_close n (su_next st) su_close stream_users [] of
     (us, r, elog) \<Rightarrow> released elog = acquired elog"
  using stream_users_releases_from [of "[]" stream_users n st]
  by (auto simp: stream_users_def acquired_def released_def)

lemma batches_release:
  "case take_then_close n (sb_next st) sb_close (SB_Created batch_size) [] of
     (bs, r, elog) \<Rightarrow> released elog = acquired elog"
  using batches_release_from [of "[]" "SB_Created batch_size" n st]
  by (auto simp: acquired_def released_def)


fun lp_fine :: "lp_gen \<Rightarrow> bool" where
  "lp_fine (LP_Created page_size) = (0 \<le> page_size)"
| "lp_fine (LP_Suspended page_size offset) = (0 \<le> page_size \<and> 0 \<le> offset)"
| "lp_fine LP_Closed = True"

lemma lp_loop_releases:
  assumes "\<not> query_fails st" "0 \<le> ps" "0 \<le> off"
    and "lp_loop st ps off elog = (r, g1, elog1)" and "acquired elog = released elog"
  shows "acquired elog1 = released elog1 \<and> lp_fine g1"
  using assms
  by (auto simp: lp_loop_def paginate_users_def connect_to_prodev_def execute_def
      acquired_def released_def split: if_splits)

lemma lazy_pagination_releases_from:
  assumes "\<not> query_fails st" "lp_fine g" "acquired elog = released elog"
  shows "case take_then_close n (lp_next st) lp_close g elog of
           (ps, r, elog1) \<Rightarrow> acquired elog1 = released elog1"
  using assms(2,3)
proof (induction n arbitrary: g elog)
  case 0
  then show ?case by simp
next
  case (Suc n)
  obtain r g1 l1 where nx: "lp_next st g elog = (r, g1, l1)"
    by (cases "lp_next st g elog") auto
  have inv: "acquired l1 = released l1 \<and> lp_fine g1"
  proof (cases g)
    case (LP_Created ps)
    with nx Suc.prems lp_loop_releases [OF assms(1), of ps 0 elog r g1 l1] show ?thesis by simp
  next
    case (LP_Suspended ps off)
    with nx Suc.prems lp_loop_releases [OF assms(1), of ps "off + ps" elog r g1 l1]
    show ?thesis by simp
  next
    case LP_Closed
    with nx Suc.prems show ?thesis by auto
  qed
  show ?case
  proof (cases r)
    case (Yield u)
    with nx Suc.IH [of g1 l1] inv show ?thesis by (auto split: prod.splits)
  next
    case StopIteration
    with nx inv show ?thesis by auto
  next
    case (Raise e)
    with nx inv show ?thesis by auto
  qed
qed

lemma lazy_pagination_releases:
  assumes "\<not> query_fails st" "0 \<le> page_size"
  shows "case take_then_close n (lp_next st) lp_close (lazy_pagination page_size) [] of
     (ps, r, elog) \<Rightarrow> released elog = acquired elog"
  using lazy_pagination_releases_from [OF assms(1), of "lazy_pagination page_size" "[]" n] assms(2)
  by (auto simp: lazy_pagination_def acquired_def released_def)

section \<open>Claims\<close>

text \<open>
  C1. For a positive batch size, whatever the store does: draining
  \<open>stream_users_in_batches\<close> gives batches whose concatenation is the sequence that
  draining \<open>stream_users\<close> gives, with the same end (exhaustion or the same exception)
  and the same effects on the store; every batch but the last has exactly
  \<open>batch_size\<close> records; no batch is empty and none is longer than \<open>batch_size\<close>.
\<close>

theorem batches_partition_stream:
  assumes "0 < batch_size"
  shows "\<exists>g. stream_users_in_batches batch_size = Inr g \<and>
     (case collect_batches st g elog of
        (batches, r, log1) \<Rightarrow>
          (concat batches, r, log1) = collect_users st stream_users elog \<and>
          (\<forall>k. Suc k < length batches \<longrightarrow> length (batches ! k) = nat batch_size) \<and>
          (\<forall>b \<in> set batches. b \<noteq> [] \<and> length b \<le> nat batch_size))"
proof (cases "healthy st")
  case True
  let ?open = "elog @ [Connected, CursorOpened, Executed SelectUsers]"
  let ?bs = "chunks (nat batch_size) (map normalize_age (table st))"
  have pos: "0 < nat batch_size" using assms by simp
  have "collect_batches st (SB_Created batch_size) elog =
      collect_batches st (SB_Suspended batch_size (SU_Suspended (table st))) ?open"
    by (subst collect_batches.simps, subst (2) collect_batches.simps)
       (simp only: sb_next_created_healthy [OF True assms])
  then have run: "collect_batches st (SB_Created batch_size) elog =
      (?bs, None, su_finally True True ?open)"
    by (simp add: collect_batches_suspended [OF assms])
  have us: "collect_users st stream_users elog =
      (map normalize_age (table st), None, su_finally True True ?open)"
    by (simp add: collect_users_healthy [OF True] su_finally_def)
  have full: "\<forall>k. Suc k < length ?bs \<longrightarrow> length (?bs ! k) = nat batch_size"
    using chunks_full by blast
  have ne: "\<forall>b \<in> set ?bs. b \<noteq> [] \<and> length b \<le> nat batch_size"
    using chunks_nonempty chunks_bounded by blast
  show ?thesis
    unfolding stream_users_in_batches_def
    using full ne by (simp add: run us concat_chunks [OF pos])
next
  case False
  then obtain evs where e: "su_next st stream_users elog = (Raise StoreError, SU_Closed, elog @ evs)"
    using su_next_unhealthy by blast
  then have "sb_next st (SB_Created batch_size) elog = (Raise StoreError, SB_Closed, elog @ evs)"
    using assms by (simp add: sb_loop.simps)
  then have run: "collect_batches st (SB_Created batch_size) elog = ([], Some StoreError, elog @ evs)"
    by (subst collect_batches.simps) simp
  have us: "collect_users st stream_users elog = ([], Some StoreError, elog @ evs)"
    using e by (subst collect_users.simps) simp
  show ?thesis
    unfolding stream_users_in_batches_def by (simp add: run us)
qed

theorem batches_partition_stream_witness:
  "(0::int) < 2 \<and>
   stream_users_in_batches 2 = Inr (SB_Created 2) \<and>
   collect_users three_users stream_users [] =
     ([alice\<lparr>age := PInt 30\<rparr>, bob\<lparr>age := PInt 20\<rparr>, carol\<lparr>age := PInt 26\<rparr>], None,
      [Connected, CursorOpened, Executed SelectUsers, CursorClosed, ConnClosed]) \<and>
   collect_batches three_users (SB_Created 2) [] =
     ([[alice\<lparr>age := PInt 30\<rparr>, bob\<lparr>age := PInt 20\<rparr>], [carol\<lparr>age := PInt 26\<rparr>]], None,
      [Connected, CursorOpened, Executed SelectUsers, CursorClosed, ConnClosed]) \<and>
   (\<exists>g. stream_users_in_batches 2 = Inr g \<and>
     (case collect_batches three_users g [] of
        (batches, r, log1) \<Rightarrow>
          (concat batches, r, log1) = collect_users three_users stream_users [] \<and>
          (\<forall>k. Suc k < length batches \<longrightarrow> length (batches ! k) = nat 2) \<and>
          (\<forall>b \<in> set batches. b \<noteq> [] \<and> length b \<le> nat 2)))"
proof -
  have p: "(0::int) < 2" by simp
  have c: "stream_users_in_batches 2 = Inr (SB_Created 2)"
    by (simp add: stream_users_in_batches_def)
  have us: "collect_users three_users stream_users [] =
     ([alice\<lparr>age := PInt 30\<rparr>, bob\<lparr>age := PInt 20\<rparr>, carol\<lparr>age := PInt 26\<rparr>], None,
      [Connected, CursorOpened, Executed SelectUsers, CursorClosed, ConnClosed])"
    by (simp add: collect_users.simps stream_users_def stream_users_connect_def execute_def
        three_users_def su_finally_def normalize_age_def py_int_def alice_def bob_def carol_def)
  have bs: "collect_batches three_users (SB_Created 2) [] =
     ([[alice\<lparr>age := PInt 30\<rparr>, bob\<lparr>age := PInt 20\<rparr>], [carol\<lparr>age := PInt 26\<rparr>]], None,
      [Connected, CursorOpened, Executed SelectUsers, CursorClosed, ConnClosed])"
    by (simp add: collect_batches.simps sb_loop.simps stream_users_def stream_users_connect_def
        execute_def three_users_def su_finally_def normalize_age_def py_int_def alice_def bob_def
        carol_def)
  show ?thesis
    by (intro conjI p c us bs batches_partition_stream [OF p])
qed

text \<open>
  C2. On a store that answers, for a positive page size, draining \<open>lazy_pagination\<close>
  ends without an exception; the queries it ran are the pages at the offsets 0, P, 2P, ...
  in that order, one more than the pages it gave; page \<open>k\<close> of the output is the
  non-empty slice of the table at offset \<open>k * P\<close>; the fetch after the last page given
  was empty; every page but the last has exactly P rows. The pages together are the table,
  and every connection and cursor opened was closed.
\<close>

theorem lazy_pagination_pages:
  assumes "healthy st" and "0 < page_size"
  shows "case collect_pages st (lazy_pagination page_size) [] of
     (pages, r, elog) \<Rightarrow>
       r = None \<and>
       queries elog = map (\<lambda>k. SelectPage page_size (int k * page_size)) [0..<Suc (length pages)] \<and>
       (\<forall>k < length pages.
          pages ! k = take (nat page_size) (drop (k * nat page_size) (table st)) \<and> pages ! k \<noteq> []) \<and>
       take (nat page_size) (drop (length pages * nat page_size) (table st)) = [] \<and>
       (\<forall>k. Suc k < length pages \<longrightarrow> length (pages ! k) = nat page_size) \<and>
       concat pages = table st \<and>
       released elog = acquired elog"
proof -
  let ?n = "nat page_size"
  let ?pages = "chunks ?n (table st)"
  have pos: "0 < ?n" using assms by simp
  have "lp_next st (LP_Created page_size) [] = lp_next st (LP_Suspended page_size (int 0 - page_size)) []"
    by simp
  then have "collect_pages st (lazy_pagination page_size) [] =
      collect_pages st (LP_Suspended page_size (int 0 - page_size)) []"
    unfolding lazy_pagination_def
    by (subst collect_pages.simps, subst (2) collect_pages.simps) simp
  then have run: "collect_pages st (lazy_pagination page_size) [] =
      (?pages, None, fetches page_size 0 (Suc (length ?pages)))"
    using collect_pages_from [OF assms, of 0 "[]"] by simp
  have q: "queries (fetches page_size 0 (Suc (length ?pages))) =
      map (\<lambda>k. SelectPage page_size (int k * page_size)) [0..<Suc (length ?pages)]"
    using queries_fetches [OF assms(2), of 0 "Suc (length ?pages)"] by simp
  have nth: "\<forall>k < length ?pages. ?pages ! k = take ?n (drop (k * ?n) (table st)) \<and> ?pages ! k \<noteq> []"
    using chunks_nth chunks_nonempty nth_mem by blast
  have "drop (length ?pages * ?n) (table st) = []"
    by (rule chunks_end [OF pos])
  then have last: "take ?n (drop (length ?pages * ?n) (table st)) = []"
    by simp
  have full: "\<forall>k. Suc k < length ?pages \<longrightarrow> length (?pages ! k) = ?n"
    using chunks_full by blast
  have cat: "concat ?pages = table st"
    using concat_chunks [OF pos] .
  have rel: "released (fetches page_size 0 m) = acquired (fetches page_size 0 m)" for m
    by (rule released_fetches)
  show ?thesis
    unfolding run prod.case
    by (intro conjI refl q nth last full cat rel)
qed

theorem lazy_pagination_pages_witness:
  "healthy three_users \<and> (0::int) < 2 \<and>
   collect_pages three_users (lazy_pagination 2) [] =
     ([[alice, bob], [carol]], None,
      [Connected, CursorOpened, Executed (SelectPage 2 0), CursorClosed, ConnClosed,
       Connected, CursorOpened, Executed (SelectPage 2 2), CursorClosed, ConnClosed,
       Connected, CursorOpened, Executed (SelectPage 2 4), CursorClosed, ConnClosed]) \<and>
   (case collect_pages three_users (lazy_pagination 2) [] of
     (pages, r, elog) \<Rightarrow>
       r = None \<and>
       queries elog = map (\<lambda>k. SelectPage 2 (int k * 2)) [0..<Suc (length pages)] \<and>
       (\<forall>k < length pages.
          pages ! k = take (nat 2) (drop (k * nat 2) (table three_users)) \<and> pages ! k \<noteq> []) \<and>
       take (nat 2) (drop (length pages * nat 2) (table three_users)) = [] \<and>
       (\<forall>k. Suc k < length pages \<longrightarrow> length (pages ! k) = nat 2) \<and>
       concat pages = table three_users \<and>
       released elog = acquired elog)"
proof -
  have h: "healthy three_users" by (simp add: healthy_def three_users_def)
  have run: "collect_pages three_users (lazy_pagination 2) [] =
     ([[alice, bob], [carol]], None,
      [Connected, CursorOpened, Executed (SelectPage 2 0), CursorClosed, ConnClosed,
       Connected, CursorOpened, Executed (SelectPage 2 2), CursorClosed, ConnClosed,
       Connected, CursorOpened, Executed (SelectPage 2 4), CursorClosed, ConnClosed])"
    by (simp add: collect_pages.simps lazy_pagination_def lp_loop_def paginate_users_def
        connect_to_prodev_def execute_def three_users_def)
  have p: "(0::int) < 2" by simp
  show ?thesis
    by (intro conjI h p run lazy_pagination_pages [OF h p])
qed


text \<open>
  C10. Calling \<open>stream_users_in_batches\<close> with a batch size that is not positive gives a
  generator object, not an exception; the first request for an element raises
  \<open>ValueError\<close> and leaves the elog as it was: no connection was opened.
\<close>

theorem batches_error_on_first_next:
  assumes "batch_size \<le> 0"
  shows "\<exists>g. stream_users_in_batches batch_size = Inr g \<and>
             sb_next st g elog = (Raise ValueError, SB_Closed, elog)"
  using assms by (simp add: stream_users_in_batches_def)

theorem batches_error_on_first_next_witness:
  "(0::int) \<le> 0 \<and>
   stream_users_in_batches 0 = Inr (SB_Created 0) \<and>
   (\<exists>g. stream_users_in_batches 0 = Inr g \<and>
        sb_next three_users g [] = (Raise ValueError, SB_Closed, []))"
proof -
  have h: "(0::int) \<le> 0" by simp
  have c: "stream_users_in_batches 0 = Inr (SB_Created 0)"
    by (simp add: stream_users_in_batches_def)
  show ?thesis
    by (intro conjI h c batches_error_on_first_next [OF h])
qed




text \<open>
  C3 fails for \<open>stream_user_ages\<close>. On a table of three rows, a consumer that takes one
  age and drops the generator leaves the connection and the cursor open: two resources
  acquired, none released. The same is left behind when the query fails, by
  \<open>stream_user_ages\<close> and by \<open>lazy_pagination\<close>.
\<close>

theorem stream_user_ages_early_stop_leaks:
  "take_then_close 1 (sa_next three_users) sa_close stream_user_ages [] =
     ([30], None, [Connected, CursorOpened, Executed SelectAges]) \<and>
   acquired [Connected, CursorOpened, Executed SelectAges] = 2 \<and>
   released [Connected, CursorOpened, Executed SelectAges] = 0 \<and>
   take_then_close 1 (sa_next failing) sa_close stream_user_ages [] =
     ([], Some StoreError, [Connected, CursorOpened, ExecuteFailed SelectAges]) \<and>
   take_then_close 1 (lp_next failing) lp_close (lazy_pagination 2) [] =
     ([], Some StoreError, [Connected, CursorOpened, ExecuteFailed (SelectPage 2 0)]) \<and>
   acquired [Connected, CursorOpened, ExecuteFailed SelectAges] = 2 \<and>
   released [Connected, CursorOpened, ExecuteFailed SelectAges] = 0 \<and>
   acquired [Connected, CursorOpened, ExecuteFailed (SelectPage 2 0)] = 2 \<and>
   released [Connected, CursorOpened, ExecuteFailed (SelectPage 2 0)] = 0"
  by (simp add: stream_user_ages_def connect_to_prodev_def execute_def three_users_def
      failing_def lazy_pagination_def lp_loop_def paginate_users_def
      alice_def py_int_def acquired_def released_def)















end
